theory Spec2Isabelle
  imports Complex_Main "HOL-Library.Monad_Syntax" "HOL-Library.Multiset"
    "HOL-Library.Signed_Division" "HOL-Library.Product_Lexorder"
begin

section \<open>Geometric primitives\<close>

text \<open>
  The program's \<open>struct Point { ll x, y; int id; }\<close>. The coordinates are modelled as
  unbounded integers: the program's interface requires coordinates small enough that
  no product in \<open>cross_product\<close> leaves the 64-bit range, and under that precondition
  \<open>long long\<close> arithmetic and integer arithmetic agree. The fields are called
  \<open>px\<close>, \<open>py\<close>, \<open>pid\<close> (\<open>id\<close> is the identity function of HOL).
\<close>

record Point =
  px :: int
  py :: int
  pid :: int

text \<open>\<open>operator-\<close>: the difference vector, with id 0.\<close>

definition minus_pt :: "Point \<Rightarrow> Point \<Rightarrow> Point" where
  "minus_pt a b = \<lparr>px = px a - px b, py = py a - py b, pid = 0\<rparr>"

text \<open>\<open>operator==\<close>: equality of the coordinates only; the id is ignored.\<close>

definition pt_eq :: "Point \<Rightarrow> Point \<Rightarrow> bool" where
  "pt_eq a b \<longleftrightarrow> px a = px b \<and> py a = py b"

text \<open>The two overloads of \<open>cross_product\<close>.\<close>

definition cross_product2 :: "Point \<Rightarrow> Point \<Rightarrow> int" where
  "cross_product2 a b = px a * py b - py a * px b"

definition cross_product :: "Point \<Rightarrow> Point \<Rightarrow> Point \<Rightarrow> int" where
  "cross_product o' a b = cross_product2 (minus_pt a o') (minus_pt b o')"

definition sign :: "int \<Rightarrow> int" where
  "sign v = (if v < 0 then -1 else if v > 0 then 1 else 0)"

definition segments_intersect :: "Point \<Rightarrow> Point \<Rightarrow> Point \<Rightarrow> Point \<Rightarrow> bool" where
  "segments_intersect a b c d =
     (if max (px a) (px b) < min (px c) (px d) \<or> max (px c) (px d) < min (px a) (px b) \<or>
         max (py a) (py b) < min (py c) (py d) \<or> max (py c) (py d) < min (py a) (py b)
      then False
      else
        let cp1 = cross_product a b c;
            cp2 = cross_product a b d;
            cp3 = cross_product c d a;
            cp4 = cross_product c d b
        in if ((cp1 > 0 \<and> cp2 < 0) \<or> (cp1 < 0 \<and> cp2 > 0) \<or> cp1 = 0 \<or> cp2 = 0) \<and>
              ((cp3 > 0 \<and> cp4 < 0) \<or> (cp3 < 0 \<and> cp4 > 0) \<or> cp3 = 0 \<or> cp4 = 0)
           then True
           else False)"



lemma cross_product_expand:
  "cross_product o' a b =
     (px a - px o') * (py b - py o') - (py a - py o') * (px b - px o')"
  by (simp add: cross_product_def cross_product2_def minus_pt_def)

section \<open>Closed segments in the real plane\<close>












section \<open>Exactness of the segment test\<close>







section \<open>The hull-intersection locator\<close>

text \<open>
  \<open>intersect_segment_convex_poly_log\<close> and the lambdas it defines. Indices are the
  program's \<open>int\<close>s; \<open>/\<close> and \<open>%\<close> of C++ truncate towards zero and are \<open>sdiv\<close> and
  \<open>smod\<close>. Reading a vector outside its bounds is undefined behaviour in the program;
  the model makes it the value \<open>None\<close>, so every function that reads the polygon returns
  an option and \<open>None\<close> stands for a fault.
\<close>

definition pt :: "int \<Rightarrow> int \<Rightarrow> int \<Rightarrow> Point" where
  "pt a b i = \<lparr>px = a, py = b, pid = i\<rparr>"

definition vec_at :: "Point list \<Rightarrow> int \<Rightarrow> Point option" where
  "vec_at poly i = (if 0 \<le> i \<and> i < int (length poly) then Some (poly ! nat i) else None)"

text \<open>
  The locator's result: \<open>NoEdge\<close> is the return value \<open>false\<close> (the references \<open>r1\<close>,
  \<open>r2\<close> are left alone), \<open>Edge r1 r2\<close> is \<open>true\<close> with the two ids written.
\<close>

datatype edge_result = NoEdge | Edge int int

text \<open>The lambdas \<open>cp\<close> and \<open>dot\<close>; \<open>dx\<close> and \<open>dy\<close> are the captured locals.\<close>

definition cp :: "Point \<Rightarrow> Point \<Rightarrow> Point list \<Rightarrow> int \<Rightarrow> int option" where
  "cp A B poly idx = do { v \<leftarrow> vec_at poly idx; Some (cross_product A B v) }"

definition dot :: "int \<Rightarrow> int \<Rightarrow> Point list \<Rightarrow> int \<Rightarrow> int option" where
  "dot dx dy poly idx = do { v \<leftarrow> vec_at poly idx; Some (- dy * px v + dx * py v) }"

definition proj :: "int \<Rightarrow> int \<Rightarrow> Point \<Rightarrow> int" where
  "proj dx dy v = - dy * px v + dx * py v"

text \<open>
  \<open>hill_climb_extreme\<close>: the sampling loop \<open>for (i = 0; i < n; i += step)\<close>, then the
  climbing loop \<open>for (iter = 0; iter < n; ++iter)\<close>. The climbing loop returns the index
  together with the number of loop bodies it has executed.
\<close>

function sample_loop ::
  "int \<Rightarrow> int \<Rightarrow> Point list \<Rightarrow> bool \<Rightarrow> int \<Rightarrow> int \<Rightarrow> int \<Rightarrow> int option" where
  "sample_loop dx dy poly maximize i best best_val =
     (let n = int (length poly); step = max 1 (n sdiv 20) in
      if i < n then do {
        v \<leftarrow> dot dx dy poly i;
        if (if maximize then v > best_val else v < best_val)
        then sample_loop dx dy poly maximize (i + step) i v
        else sample_loop dx dy poly maximize (i + step) best best_val
      } else Some best)"
  by pat_completeness auto
termination
  by (relation "measure (\<lambda>(dx, dy, poly, maximize, i, best, best_val). nat (int (length poly) - i))")
     (auto simp: Let_def)

function climb_loop ::
  "int \<Rightarrow> int \<Rightarrow> Point list \<Rightarrow> bool \<Rightarrow> int \<Rightarrow> int \<Rightarrow> (int \<times> int) option" where
  "climb_loop dx dy poly maximize cur iter =
     (let n = int (length poly) in
      if iter < n then do {
        let next = (cur + 1) smod n;
        let prev = (cur - 1 + n) smod n;
        val_cur \<leftarrow> dot dx dy poly cur;
        val_next \<leftarrow> dot dx dy poly next;
        val_prev \<leftarrow> dot dx dy poly prev;
        if maximize then
          (if val_next > val_cur then climb_loop dx dy poly maximize next (iter + 1)
           else if val_prev > val_cur then climb_loop dx dy poly maximize prev (iter + 1)
           else Some (cur, iter + 1))
        else
          (if val_next < val_cur then climb_loop dx dy poly maximize next (iter + 1)
           else if val_prev < val_cur then climb_loop dx dy poly maximize prev (iter + 1)
           else Some (cur, iter + 1))
      } else Some (cur, iter))"
  by pat_completeness auto
termination
  by (relation "measure (\<lambda>(dx, dy, poly, maximize, cur, iter). nat (int (length poly) - iter))")
     (auto simp: Let_def)

declare sample_loop.simps [simp del] climb_loop.simps [simp del]

definition hill_climb_extreme :: "int \<Rightarrow> int \<Rightarrow> Point list \<Rightarrow> bool \<Rightarrow> int option" where
  "hill_climb_extreme dx dy poly maximize = do {
     best_val \<leftarrow> dot dx dy poly 0;
     best \<leftarrow> sample_loop dx dy poly maximize 0 0 best_val;
     (cur, iter) \<leftarrow> climb_loop dx dy poly maximize best 0;
     Some cur
   }"

text \<open>
  \<open>check_chain\<close>. One pass of its \<open>while (L + 1 < R)\<close> loop is \<open>chain_step\<close>; the loop
  terminates because every pass narrows the range.
\<close>

lemma sdiv_halve_between:
  fixes L R :: int
  assumes "L + 1 < R"
  shows "L < (L + R) sdiv 2" "(L + R) sdiv 2 < R"
  using assms by (auto simp: signed_divide_int_def sgn_if abs_if) 

definition chain_step ::
  "Point \<Rightarrow> Point \<Rightarrow> Point list \<Rightarrow> int \<Rightarrow> int \<Rightarrow> int \<Rightarrow> (int \<times> int) option" where
  "chain_step A B poly start L R =
     (let n = int (length poly) in do {
        let mid = (L + R) sdiv 2;
        let idx = (start + mid) smod n;
        c_idx \<leftarrow> cp A B poly idx;
        c_start \<leftarrow> cp A B poly start;
        if sign c_idx = sign c_start then Some (mid, R) else Some (L, mid)
      })"

lemma chain_step_narrows:
  assumes "L + 1 < R" "chain_step A B poly start L R = Some (L', R')"
  shows "L \<le> L' \<and> L' < R' \<and> R' \<le> R \<and> R' - L' < R - L"
  using assms sdiv_halve_between[OF assms(1)]
  by (auto simp: chain_step_def Let_def split: bind_splits if_splits)

function chain_search ::
  "Point \<Rightarrow> Point \<Rightarrow> Point list \<Rightarrow> int \<Rightarrow> int \<Rightarrow> int \<Rightarrow> int option" where
  "chain_search A B poly start L R =
     (if L + 1 < R then do {
        (L', R') \<leftarrow> chain_step A B poly start L R;
        chain_search A B poly start L' R'
      } else Some L)"
  by pat_completeness auto
termination
proof (relation "measure (\<lambda>(A, B, poly, start, L, R). nat (R - L))")
  show "wf (measure (\<lambda>(A, B, poly, start, L, R). nat (R - L)))" by simp
next
  fix A B poly start L R x xa y
  assume "L + 1 < R" "chain_step A B poly start L R = Some x" "(xa, y) = x"
  then have "chain_step A B poly start L R = Some (xa, y)" by simp
  from chain_step_narrows[OF \<open>L + 1 < R\<close> this]
  show "((A, B, poly, start, xa, y), A, B, poly, start, L, R)
          \<in> measure (\<lambda>(A, B, poly, start, L, R). nat (R - L))"
    by simp
qed

declare chain_search.simps [simp del]

definition check_chain ::
  "Point \<Rightarrow> Point \<Rightarrow> Point list \<Rightarrow> int \<Rightarrow> int \<Rightarrow> edge_result option" where
  "check_chain A B poly start end' =
     (let n = int (length poly) in do {
        c_start \<leftarrow> cp A B poly start;
        if c_start = 0 then do {
          let next = (start + 1) smod n;
          p_start \<leftarrow> vec_at poly start;
          p_next \<leftarrow> vec_at poly next;
          if segments_intersect A B p_start p_next then Some (Edge (pid p_start) (pid p_next))
          else do {
            let prev = (start - 1 + n) smod n;
            p_prev \<leftarrow> vec_at poly prev;
            if segments_intersect A B p_prev p_start then Some (Edge (pid p_prev) (pid p_start))
            else Some NoEdge
          }
        } else do {
          let len = (end' - start + n) smod n;
          c_end \<leftarrow> cp A B poly end';
          if sign c_start = sign c_end then Some NoEdge
          else do {
            L \<leftarrow> chain_search A B poly start 0 len;
            let idx1 = (start + L) smod n;
            let idx2 = (start + L + 1) smod n;
            p1 \<leftarrow> vec_at poly idx1;
            p2 \<leftarrow> vec_at poly idx2;
            if segments_intersect A B p1 p2 then Some (Edge (pid p1) (pid p2))
            else Some NoEdge
          }
        }
      })"

definition intersect_segment_convex_poly_log ::
  "Point \<Rightarrow> Point \<Rightarrow> Point list \<Rightarrow> edge_result option" where
  "intersect_segment_convex_poly_log A B poly =
     (let n = int (length poly) in
      if n < 2 then Some NoEdge
      else if n = 2 then do {
        p0 \<leftarrow> vec_at poly 0;
        p1 \<leftarrow> vec_at poly 1;
        if segments_intersect A B p0 p1 then Some (Edge (pid p0) (pid p1)) else Some NoEdge
      } else do {
        let dx = px B - px A;
        let dy = py B - py A;
        max_idx \<leftarrow> hill_climb_extreme dx dy poly True;
        min_idx \<leftarrow> hill_climb_extreme dx dy poly False;
        cp_max \<leftarrow> cp A B poly max_idx;
        cp_min \<leftarrow> cp A B poly min_idx;
        if cp_max > 0 \<and> cp_min > 0 then Some NoEdge
        else if cp_max < 0 \<and> cp_min < 0 then Some NoEdge
        else do {
          r \<leftarrow> check_chain A B poly max_idx min_idx;
          case r of
            Edge r1 r2 \<Rightarrow> Some (Edge r1 r2)
          | NoEdge \<Rightarrow> do {
              r' \<leftarrow> check_chain A B poly min_idx max_idx;
              case r' of
                Edge r1 r2 \<Rightarrow> Some (Edge r1 r2)
              | NoEdge \<Rightarrow> Some NoEdge
            }
        }
      })"

section \<open>Soundness of the locator\<close>

lemma vec_at_mem: "vec_at poly i = Some p \<Longrightarrow> p \<in> set poly"
  by (auto simp: vec_at_def split: if_splits)

lemma check_chain_sound:
  assumes "check_chain A B poly s e = Some (Edge r1 r2)"
  shows "\<exists>e1 \<in> set poly. \<exists>e2 \<in> set poly.
           pid e1 = r1 \<and> pid e2 = r2 \<and> segments_intersect A B e1 e2"
  using assms unfolding check_chain_def Let_def
  by (auto split: bind_splits if_splits dest!: vec_at_mem)

lemma locator_reports_crossed_edge:
  assumes "intersect_segment_convex_poly_log A B poly = Some (Edge r1 r2)"
  shows "\<exists>e1 \<in> set poly. \<exists>e2 \<in> set poly.
           pid e1 = r1 \<and> pid e2 = r2 \<and> segments_intersect A B e1 e2"
  using assms unfolding intersect_segment_convex_poly_log_def Let_def
  by (auto split: bind_splits if_splits edge_result.splits dest!: vec_at_mem check_chain_sound)

text \<open>
  Claim C1. Whenever \<open>intersect_segment_convex_poly_log A B poly\<close> returns true and
  reports the ids \<open>r1\<close>, \<open>r2\<close>, the polygon has vertices \<open>e1\<close>, \<open>e2\<close> with these ids for
  which \<open>segments_intersect A B e1 e2\<close> holds. This needs no assumption on the polygon.
\<close>

theorem locator_sound:
  assumes "intersect_segment_convex_poly_log A B poly = Some (Edge r1 r2)"
  shows "\<exists>e1 \<in> set poly. \<exists>e2 \<in> set poly.
           pid e1 = r1 \<and> pid e2 = r2 \<and> segments_intersect A B e1 e2"
  using assms by (rule locator_reports_crossed_edge)

theorem locator_sound_witness:
  "intersect_segment_convex_poly_log (pt 1 1 7) (pt 5 1 8)
      [pt 0 0 1, pt 4 0 2, pt 4 4 3, pt 0 4 4] = Some (Edge 2 3) \<and>
   (\<exists>e1 \<in> set [pt 0 0 1, pt 4 0 2, pt 4 4 3, pt 0 4 4].
    \<exists>e2 \<in> set [pt 0 0 1, pt 4 0 2, pt 4 4 3, pt 0 4 4].
      pid e1 = 2 \<and> pid e2 = 3 \<and> segments_intersect (pt 1 1 7) (pt 5 1 8) e1 e2)"
proof -
  have h: "intersect_segment_convex_poly_log (pt 1 1 7) (pt 5 1 8)
      [pt 0 0 1, pt 4 0 2, pt 4 4 3, pt 0 4 4] = Some (Edge 2 3)"
    by code_simp
  from locator_sound[OF h] h show ?thesis by blast
qed

section \<open>The locator never faults\<close>

lemma smod_nonneg_eq_mod:
  fixes a n :: int
  assumes "0 \<le> a" "0 < n"
  shows "a smod n = a mod n"
  using assms by (simp add: signed_modulo_int_def sgn_if)

lemma smod_index_range:
  fixes a n :: int
  assumes "0 \<le> a" "0 < n"
  shows "0 \<le> a smod n" "a smod n < n"
  using assms by (simp_all add: smod_nonneg_eq_mod)

lemma vec_at_in_range:
  "0 \<le> i \<Longrightarrow> i < int (length poly) \<Longrightarrow> vec_at poly i = Some (poly ! nat i)"
  by (simp add: vec_at_def)

lemma dot_in_range:
  "0 \<le> i \<Longrightarrow> i < int (length poly) \<Longrightarrow>
     dot dx dy poly i = Some (proj dx dy (poly ! nat i))"
  by (simp add: dot_def proj_def vec_at_in_range)

lemma cp_in_range:
  "0 \<le> i \<Longrightarrow> i < int (length poly) \<Longrightarrow>
     cp A B poly i = Some (cross_product A B (poly ! nat i))"
  by (simp add: cp_def vec_at_in_range)

lemma sample_loop_in_range:
  assumes "0 \<le> i" "0 \<le> best" "best < int (length poly)"
  shows "\<exists>b. sample_loop dx dy poly maximize i best best_val = Some b \<and>
             0 \<le> b \<and> b < int (length poly)"
  using assms
proof (induction dx dy poly maximize i best best_val rule: sample_loop.induct)
  case (1 dx dy poly maximize i best best_val)
  let ?n = "int (length poly)"
  let ?step = "max 1 (?n sdiv 20)"
  show ?case
  proof (cases "i < ?n")
    case False
    then show ?thesis using "1.prems" by (subst sample_loop.simps) (simp add: Let_def)
  next
    case True
    obtain v where d: "dot dx dy poly i = Some v"
      using True "1.prems" by (simp add: dot_in_range)
    have s: "0 \<le> i + ?step" using "1.prems" by simp
    have i: "0 \<le> i" "i < ?n" using True "1.prems" by auto
    show ?thesis
    proof (cases "if maximize then v > best_val else v < best_val")
      case c: True
      have "\<exists>b. sample_loop dx dy poly maximize (i + ?step) i v = Some b \<and> 0 \<le> b \<and> b < ?n"
        using "1.IH"(1)[OF refl refl True d c s i] .
      then show ?thesis using True d c by (subst sample_loop.simps) (simp add: Let_def)
    next
      case c: False
      have "\<exists>b. sample_loop dx dy poly maximize (i + ?step) best best_val = Some b \<and> 0 \<le> b \<and> b < ?n"
        using "1.IH"(2)[OF refl refl True d c s "1.prems"(2,3)] .
      then show ?thesis using True d c by (subst sample_loop.simps) (simp add: Let_def)
    qed
  qed
qed

lemma climb_loop_in_range:
  assumes "0 \<le> cur" "cur < int (length poly)" "iter \<le> int (length poly)"
  shows "\<exists>c it. climb_loop dx dy poly maximize cur iter = Some (c, it) \<and>
             0 \<le> c \<and> c < int (length poly) \<and> iter \<le> it \<and> it \<le> int (length poly)"
  using assms
proof (induction dx dy poly maximize cur iter rule: climb_loop.induct)
  case (1 dx dy poly maximize cur iter)
  let ?n = "int (length poly)"
  let ?next = "(cur + 1) smod ?n"
  let ?prev = "(cur - 1 + ?n) smod ?n"
  have npos: "0 < ?n" using "1.prems" by linarith
  have nx: "0 \<le> ?next" "?next < ?n" using smod_index_range[of "cur + 1" ?n] "1.prems" npos by auto
  have pv: "0 \<le> ?prev" "?prev < ?n" using smod_index_range[of "cur - 1 + ?n" ?n] "1.prems" npos by auto
  obtain vc vn vp where d: "dot dx dy poly cur = Some vc" "dot dx dy poly ?next = Some vn"
          "dot dx dy poly ?prev = Some vp"
    using "1.prems" nx pv by (simp add: dot_in_range)
  show ?case
  proof (cases "iter < ?n")
    case False
    then show ?thesis using "1.prems" by (subst climb_loop.simps) (simp add: Let_def)
  next
    case True
    have it: "iter + 1 \<le> ?n" using True by simp
    note IH = "1.IH"[OF refl True refl refl d]
    show ?thesis
    proof (cases maximize)
      case m: True
      consider (a) "vn > vc"
        | (b) "\<not> vn > vc" "vp > vc"
        | (c) "\<not> vn > vc" "\<not> vp > vc" by blast
      then show ?thesis
      proof cases
        case a
        from IH(1)[OF m a nx it] obtain c it' where
          "climb_loop dx dy poly maximize ?next (iter + 1) = Some (c, it')"
          "0 \<le> c" "c < ?n" "iter + 1 \<le> it'" "it' \<le> ?n" by blast
        then show ?thesis using True d m a by (subst climb_loop.simps) (simp add: Let_def)
      next
        case b
        from IH(2)[OF m b pv it] obtain c it' where
          "climb_loop dx dy poly maximize ?prev (iter + 1) = Some (c, it')"
          "0 \<le> c" "c < ?n" "iter + 1 \<le> it'" "it' \<le> ?n" by blast
        then show ?thesis using True d m b by (subst climb_loop.simps) (simp add: Let_def)
      next
        case c
        then show ?thesis using True d m "1.prems" by (subst climb_loop.simps) (simp add: Let_def)
      qed
    next
      case m: False
      consider (a) "vn < vc"
        | (b) "\<not> vn < vc" "vp < vc"
        | (c) "\<not> vn < vc" "\<not> vp < vc" by blast
      then show ?thesis
      proof cases
        case a
        from IH(3)[OF m a nx it] obtain c it' where
          "climb_loop dx dy poly maximize ?next (iter + 1) = Some (c, it')"
          "0 \<le> c" "c < ?n" "iter + 1 \<le> it'" "it' \<le> ?n" by blast
        then show ?thesis using True d m a by (subst climb_loop.simps) (simp add: Let_def)
      next
        case b
        from IH(4)[OF m b pv it] obtain c it' where
          "climb_loop dx dy poly maximize ?prev (iter + 1) = Some (c, it')"
          "0 \<le> c" "c < ?n" "iter + 1 \<le> it'" "it' \<le> ?n" by blast
        then show ?thesis using True d m b by (subst climb_loop.simps) (simp add: Let_def)
      next
        case c
        then show ?thesis using True d m "1.prems" by (subst climb_loop.simps) (simp add: Let_def)
      qed
    qed
  qed
qed

lemma hill_climb_extreme_in_range:
  assumes "0 < length poly"
  shows "\<exists>c. hill_climb_extreme dx dy poly maximize = Some c \<and> 0 \<le> c \<and> c < int (length poly)"
proof -
  obtain bv where b: "dot dx dy poly 0 = Some bv" using assms by (simp add: dot_in_range)
  obtain best where s: "sample_loop dx dy poly maximize 0 0 bv = Some best"
      "0 \<le> best" "best < int (length poly)"
    using sample_loop_in_range[of 0 0 poly dx dy maximize bv] assms by auto
  obtain c it where c: "climb_loop dx dy poly maximize best 0 = Some (c, it)"
      "0 \<le> c" "c < int (length poly)"
    using climb_loop_in_range[OF s(2,3), of 0 dx dy maximize] by auto
  show ?thesis using b s(1) c by (simp add: hill_climb_extreme_def)
qed

lemma chain_step_in_range:
  assumes "0 \<le> start" "start < int (length poly)" "0 \<le> L" "L + 1 < R"
  shows "\<exists>L' R'. chain_step A B poly start L R = Some (L', R')"
proof -
  let ?n = "int (length poly)"
  have npos: "0 < ?n" using assms by linarith
  have m: "0 \<le> start + (L + R) sdiv 2"
    using sdiv_halve_between(1)[OF assms(4)] assms(1,3) by linarith
  have "0 \<le> (start + (L + R) sdiv 2) smod ?n" "(start + (L + R) sdiv 2) smod ?n < ?n"
    using smod_index_range[OF m npos] by auto
  then show ?thesis using assms(1,2)
    by (simp add: chain_step_def Let_def cp_in_range)
qed

lemma chain_search_in_range:
  assumes "0 \<le> start" "start < int (length poly)" "0 \<le> L"
  shows "\<exists>r. chain_search A B poly start L R = Some r \<and> L \<le> r"
  using assms
proof (induction A B poly start L R rule: chain_search.induct)
  case (1 A B poly start L R)
  show ?case
  proof (cases "L + 1 < R")
    case False
    then show ?thesis by (subst chain_search.simps) simp
  next
    case True
    obtain L' R' where st: "chain_step A B poly start L R = Some (L', R')"
      using chain_step_in_range[OF "1.prems"(1,2,3) True] by blast
    have nar: "L \<le> L'" using chain_step_narrows[OF True st] by simp
    then have "0 \<le> L'" using "1.prems" by simp
    from "1.IH"[OF True st refl "1.prems"(1,2) this]
    obtain r where "chain_search A B poly start L' R' = Some r" "L' \<le> r" by blast
    then show ?thesis using True st nar by (subst chain_search.simps) simp
  qed
qed

lemma check_chain_no_fault:
  assumes "0 \<le> start" "start < int (length poly)" "0 \<le> end'" "end' < int (length poly)"
  shows "\<exists>r. check_chain A B poly start end' = Some r"
proof -
  let ?n = "int (length poly)"
  have npos: "0 < ?n" using assms by linarith
  have nx: "0 \<le> (start + 1) smod ?n" "(start + 1) smod ?n < ?n"
    using smod_index_range[of "start + 1" ?n] assms npos by auto
  have pv: "0 \<le> (start - 1 + ?n) smod ?n" "(start - 1 + ?n) smod ?n < ?n"
    using smod_index_range[of "start - 1 + ?n" ?n] assms npos by auto
  obtain L where L: "chain_search A B poly start 0 ((end' - start + ?n) smod ?n) = Some L" "0 \<le> L"
    using chain_search_in_range[OF assms(1,2), of 0 A B "(end' - start + ?n) smod ?n"] by auto
  have i1: "0 \<le> (start + L) smod ?n" "(start + L) smod ?n < ?n"
    using smod_index_range[of "start + L" ?n] assms L npos by auto
  have i2: "0 \<le> (start + L + 1) smod ?n" "(start + L + 1) smod ?n < ?n"
    using smod_index_range[of "start + L + 1" ?n] assms L npos by auto
  show ?thesis
    unfolding check_chain_def Let_def
    using assms nx pv L i1 i2 by (simp add: cp_in_range vec_at_in_range)
qed

lemma locator_no_fault:
  "\<exists>r. intersect_segment_convex_poly_log A B poly = Some r"
proof -
  let ?n = "int (length poly)"
  consider (small) "?n < 2" | (two) "?n = 2" | (big) "2 < ?n" by linarith
  then show ?thesis
  proof cases
    case small
    then show ?thesis by (simp add: intersect_segment_convex_poly_log_def)
  next
    case two
    then show ?thesis by (simp add: intersect_segment_convex_poly_log_def Let_def vec_at_in_range)
  next
    case big
    let ?dx = "px B - px A" and ?dy = "py B - py A"
    have pos: "0 < length poly" using big by auto
    obtain mx where mx: "hill_climb_extreme ?dx ?dy poly True = Some mx" "0 \<le> mx" "mx < ?n"
      using hill_climb_extreme_in_range[OF pos] by blast
    obtain mn where mn: "hill_climb_extreme ?dx ?dy poly False = Some mn" "0 \<le> mn" "mn < ?n"
      using hill_climb_extreme_in_range[OF pos] by blast
    obtain r1 where r1: "check_chain A B poly mx mn = Some r1"
      using check_chain_no_fault[OF mx(2,3) mn(2,3)] by blast
    obtain r2 where r2: "check_chain A B poly mn mx = Some r2"
      using check_chain_no_fault[OF mn(2,3) mx(2,3)] by blast
    show ?thesis
      unfolding intersect_segment_convex_poly_log_def Let_def
      using big mx mn r1 r2 by (simp add: cp_in_range split: edge_result.splits)
  qed
qed

section \<open>Optimality of the hill climb\<close>




















text \<open>
  Claim C8. For every polygon, of any size, and every segment, the locator returns a
  result, \<open>NoEdge\<close> or an edge, and never the fault \<open>None\<close>; every loop of the model is
  a total function. The climbing loop started at a vertex executes at most \<open>n\<close> loop
  bodies, and every pass of the binary search replaces the range \<open>(L, R)\<close> by a strictly
  narrower one inside it.
\<close>

theorem locator_terminates_without_fault:
  "(\<exists>r. intersect_segment_convex_poly_log A B poly = Some r) \<and>
   (0 \<le> cur \<and> cur < int (length poly) \<longrightarrow>
      (\<exists>c it. climb_loop dx dy poly maximize cur 0 = Some (c, it) \<and> it \<le> int (length poly))) \<and>
   (L + 1 < R \<and> chain_step A B poly start L R = Some (L', R') \<longrightarrow>
      L \<le> L' \<and> L' < R' \<and> R' \<le> R \<and> R' - L' < R - L)"
proof (intro conjI impI)
  show "\<exists>r. intersect_segment_convex_poly_log A B poly = Some r"
    by (rule locator_no_fault)
next
  assume "0 \<le> cur \<and> cur < int (length poly)"
  then show "\<exists>c it. climb_loop dx dy poly maximize cur 0 = Some (c, it) \<and> it \<le> int (length poly)"
    using climb_loop_in_range[of cur poly 0 dx dy maximize] by auto
next
  assume h: "L + 1 < R \<and> chain_step A B poly start L R = Some (L', R')"
  then have "L \<le> L' \<and> L' < R' \<and> R' \<le> R \<and> R' - L' < R - L"
    using chain_step_narrows[of L R A B poly start L' R'] by simp
  then show "L \<le> L'" "L' < R'" "R' \<le> R" "R' - L' < R - L" by simp_all
qed

theorem locator_terminates_without_fault_witness:
  "(\<exists>r. intersect_segment_convex_poly_log (pt 1 1 7) (pt 5 1 8)
          [pt 0 0 1, pt 4 0 2, pt 4 4 3, pt 0 4 4] = Some r) \<and>
   ((0::int) \<le> 0 \<and> 0 < int (length [pt 0 0 1, pt 4 0 2, pt 4 4 3, pt 0 4 4])) \<and>
   (\<exists>c it. climb_loop 4 0 [pt 0 0 1, pt 4 0 2, pt 4 4 3, pt 0 4 4] True 0 0 = Some (c, it) \<and>
       it \<le> int (length [pt 0 0 1, pt 4 0 2, pt 4 4 3, pt 0 4 4])) \<and>
   ((0::int) + 1 < 3 \<and>
    chain_step (pt 1 1 7) (pt 5 1 8) [pt 0 0 1, pt 4 0 2, pt 4 4 3, pt 0 4 4] 0 0 3 = Some (1, 3))"
proof -
  have h1: "(0::int) \<le> 0 \<and> 0 < int (length [pt 0 0 1, pt 4 0 2, pt 4 4 3, pt 0 4 4])"
    by simp
  have h2: "(0::int) + 1 < 3 \<and>
    chain_step (pt 1 1 7) (pt 5 1 8) [pt 0 0 1, pt 4 0 2, pt 4 4 3, pt 0 4 4] 0 0 3 = Some (1, 3)"
    by code_simp
  from locator_terminates_without_fault[where A = "pt 1 1 7" and B = "pt 5 1 8"
      and poly = "[pt 0 0 1, pt 4 0 2, pt 4 4 3, pt 0 4 4]" and cur = 0 and dx = 4 and dy = 0
      and maximize = True and L = 0 and R = 3 and start = 0 and L' = 1 and R' = 3] h1 h2
  show ?thesis by blast
qed

section \<open>Convex hull builder and point-in-hull test\<close>

text \<open>
  \<open>convex_hull\<close> takes its argument by reference and sorts it in place, so the model
  returns a pair: the hull that is returned, and the contents of \<open>pts\<close> after the call.
  The array \<open>h\<close> of \<open>2 * n\<close> value-initialised points and the stack pointer \<open>k\<close> are
  kept as they are in the program. \<open>pop_while\<close> is the inner \<open>while\<close> loop (with the bound
  \<open>t\<close>, which is \<open>2\<close> in the first \<open>for\<close> loop), \<open>hull_push\<close> one pass of a \<open>for\<close> loop.
  \<open>std::sort\<close> with the comparator on \<open>(x, y)\<close> is modelled by the stable sort on the key
  \<open>(x, y)\<close>; the program leaves the order of points with equal coordinates open.
\<close>

function pop_while :: "Point list \<Rightarrow> int \<Rightarrow> int \<Rightarrow> Point \<Rightarrow> int" where
  "pop_while h k t p =
     (if k \<ge> t \<and> cross_product (h ! nat (k - 2)) (h ! nat (k - 1)) p \<le> 0
      then pop_while h (k - 1) t p else k)"
  by pat_completeness auto
termination
  by (relation "measure (\<lambda>(h, k, t, p). nat (k + 1 - t))") auto

declare pop_while.simps [simp del]

definition hull_push :: "int \<Rightarrow> Point \<Rightarrow> Point list \<times> int \<Rightarrow> Point list \<times> int" where
  "hull_push t p hk =
     (case hk of (h, k) \<Rightarrow> let k' = pop_while h k t p in (h[nat k' := p], k' + 1))"

definition cmp_xy :: "Point \<Rightarrow> Point \<Rightarrow> bool" where
  "cmp_xy a b \<longleftrightarrow> px a < px b \<or> (px a = px b \<and> py a < py b)"

definition sort_xy :: "Point list \<Rightarrow> Point list" where
  "sort_xy pts = sort_key (\<lambda>p. (px p, py p)) pts"

definition convex_hull :: "Point list \<Rightarrow> Point list \<times> Point list" where
  "convex_hull pts =
     (let n = length pts in
      if n \<le> 2 then (pts, pts)
      else
        let h0 = replicate (2 * n) (pt 0 0 0);
            pts' = sort_xy pts;
            (h1, k1) = fold (\<lambda>i. hull_push 2 (pts' ! i)) [0..<n] (h0, 0);
            t = k1 + 1;
            (h2, k2) = fold (\<lambda>i. hull_push t (pts' ! i)) (rev [0..<n - 1]) (h1, k1)
        in (take (nat (k2 - 1)) h2, pts'))"

text \<open>
  \<open>is_inside\<close>; \<open>fan_search\<close> is its \<open>while (l + 1 < r)\<close> loop. The indices are never
  negative, so they are natural numbers and \<open>/\<close> is \<open>div\<close>.
\<close>

function fan_search :: "Point list \<Rightarrow> Point \<Rightarrow> nat \<Rightarrow> nat \<Rightarrow> nat \<times> nat" where
  "fan_search poly p l r =
     (if l + 1 < r then
        let mid = (l + r) div 2 in
        if cross_product (poly ! 0) (poly ! mid) p \<ge> 0 then fan_search poly p mid r
        else fan_search poly p l mid
      else (l, r))"
  by pat_completeness auto
termination
  by (relation "measure (\<lambda>(poly, p, l, r). r - l)") auto

declare fan_search.simps [simp del]

definition is_inside :: "Point list \<Rightarrow> Point \<Rightarrow> bool" where
  "is_inside poly p =
     (let n = length poly in
      if n = 0 then False
      else if n = 1 then pt_eq p (poly ! 0)
      else if n = 2 then
        cross_product (poly ! 0) (poly ! 1) p = 0 \<and>
        min (px (poly ! 0)) (px (poly ! 1)) \<le> px p \<and> px p \<le> max (px (poly ! 0)) (px (poly ! 1)) \<and>
        min (py (poly ! 0)) (py (poly ! 1)) \<le> py p \<and> py p \<le> max (py (poly ! 0)) (py (poly ! 1))
      else if cross_product (poly ! 0) (poly ! 1) p < 0 \<or>
              cross_product (poly ! 0) (poly ! (n - 1)) p > 0 then False
      else
        let (l, r) = fan_search poly p 1 (n - 1)
        in cross_product (poly ! l) (poly ! r) p \<ge> 0)"

section \<open>Pair search strategy\<close>

text \<open>
  What one test case prints: \<open>NoCrossing\<close> is the line \<open>-1\<close>, \<open>Crossing a b c d\<close> the line
  with the four ids in the order printed. \<open>throw 1\<close> after printing ends the search, so
  each search level returns the first report found. As before \<open>None\<close> is a fault: an
  out-of-range read or the division \<open>rand() % 0\<close>.

  \<open>run_h\<close> sorts its copy of the points by \<open>atan2\<close> around the centroid of the hull, in
  floating point, and draws ten values from \<open>rand()\<close>. Neither is computed by the model:
  \<open>run_h\<close> takes the vector as it is after that sort (\<open>P_pts\<close>) and the function \<open>rnd\<close> that
  gives the k-th value of \<open>rand()\<close>.
\<close>

datatype report = NoCrossing | Crossing int int int int





text \<open>
  The fallback of \<open>solve\<close>: the loop over \<open>P\<close> stops at the first point inside \<open>HR\<close>
  (\<open>break\<close>); for that point the loop over \<open>HP\<close> tries every vertex outside \<open>HR\<close>. The
  second fallback loop of the program (over \<open>R\<close>) has no effect and is left out.
\<close>

fun find_outside :: "Point \<Rightarrow> Point list \<Rightarrow> Point list \<Rightarrow> report option" where
  "find_outside p HR [] = Some NoCrossing"
| "find_outside p HR (q # qs) =
     (if \<not> is_inside HR q then do {
        r \<leftarrow> intersect_segment_convex_poly_log p q HR;
        case r of
          Edge r1 r2 \<Rightarrow> Some (Crossing (pid p) (pid q) r1 r2)
        | NoEdge \<Rightarrow> find_outside p HR qs
      } else find_outside p HR qs)"

fun fallback :: "Point list \<Rightarrow> Point list \<Rightarrow> Point list \<Rightarrow> report option" where
  "fallback [] HP HR = Some NoCrossing"
| "fallback (p # ps) HP HR =
     (if is_inside HR p then find_outside p HR HP else fallback ps HP HR)"



section \<open>What the search reports\<close>









lemma find_outside_sound:
  assumes "find_outside p HR qs = Some (Crossing a b c d)"
  shows "\<exists>q \<in> set qs. \<not> is_inside HR q \<and> a = pid p \<and> b = pid q \<and>
           intersect_segment_convex_poly_log p q HR = Some (Edge c d)"
  using assms
proof (induction qs)
  case Nil
  then show ?case by simp
next
  case (Cons q qs)
  show ?case
  proof (cases "is_inside HR q")
    case True
    then show ?thesis using Cons by simp
  next
    case False
    from Cons.prems False obtain r where r: "intersect_segment_convex_poly_log p q HR = Some r"
      and res: "(case r of Edge r1 r2 \<Rightarrow> Some (Crossing (pid p) (pid q) r1 r2)
                 | NoEdge \<Rightarrow> find_outside p HR qs) = Some (Crossing a b c d)"
      by (auto split: bind_splits)
    show ?thesis
    proof (cases r)
      case NoEdge
      then show ?thesis using res Cons.IH by simp
    next
      case (Edge r1 r2)
      then show ?thesis using res r False by simp
    qed
  qed
qed

lemma fallback_sound:
  assumes "fallback P HP HR = Some (Crossing a b c d)"
  shows "\<exists>p \<in> set P. \<exists>q \<in> set HP. is_inside HR p \<and> \<not> is_inside HR q \<and>
           a = pid p \<and> b = pid q \<and>
           intersect_segment_convex_poly_log p q HR = Some (Edge c d)"
  using assms
proof (induction P)
  case Nil
  then show ?case by simp
next
  case (Cons p ps)
  show ?case
  proof (cases "is_inside HR p")
    case True
    then have "find_outside p HR HP = Some (Crossing a b c d)" using Cons.prems by simp
    from find_outside_sound[OF this] True show ?thesis by auto
  next
    case False
    then show ?thesis using Cons by simp
  qed
qed

section \<open>The point set after hull construction\<close>

lemma cmp_xy_iff_key_less: "cmp_xy a b \<longleftrightarrow> (px a, py a) < (px b, py b)"
  by (auto simp: cmp_xy_def less_prod_def)

lemma sort_xy_mset: "mset (sort_xy pts) = mset pts"
  by (simp add: sort_xy_def)

lemma sort_xy_sorted: "sorted_wrt (\<lambda>a b. \<not> cmp_xy b a) (sort_xy pts)"
proof -
  have "sorted (map (\<lambda>p. (px p, py p)) (sort_xy pts))"
    by (simp add: sort_xy_def)
  then have "sorted_wrt (\<lambda>a b. (px a, py a) \<le> (px b, py b)) (sort_xy pts)"
    by (simp add: sorted_map)
  then show ?thesis
    by (rule sorted_wrt_mono_rel[rotated]) (auto simp: cmp_xy_def less_eq_prod_def)
qed

lemma convex_hull_snd:
  "snd (convex_hull pts) = (if length pts \<le> 2 then pts else sort_xy pts)"
  by (simp add: convex_hull_def Let_def split: prod.splits)

text \<open>
  Claim C3 says that \<open>convex_hull\<close> leaves the point set it is given unchanged. It does
  not: the three points below come back in another order.
\<close>

theorem convex_hull_reorders_input:
  "snd (convex_hull [pt 2 0 1, pt 0 0 2, pt 1 3 3]) = [pt 0 0 2, pt 1 3 3, pt 2 0 1] \<and>
   snd (convex_hull [pt 2 0 1, pt 0 0 2, pt 1 3 3]) \<noteq> [pt 2 0 1, pt 0 0 2, pt 1 3 3]"
  by code_simp

text \<open>
  Claim C3, amended. \<open>convex_hull\<close> may reorder the point set it is given but never
  adds, drops or alters a point or its id: after the call the vector holds the same
  points with the same ids, each as often as before. A vector of at most two points is
  left exactly as it was; a longer one is left sorted by the comparator on \<open>(x, y)\<close>.
\<close>

theorem convex_hull_keeps_points:
  "mset (snd (convex_hull pts)) = mset pts \<and>
   (if length pts \<le> 2 then snd (convex_hull pts) = pts
    else sorted_wrt (\<lambda>a b. \<not> cmp_xy b a) (snd (convex_hull pts)))"
  by (simp add: convex_hull_snd sort_xy_mset sort_xy_sorted)

section \<open>Duplicate coordinates in built hulls\<close>

definition coords :: "Point \<Rightarrow> int \<times> int" where
  "coords p = (px p, py p)"

text \<open>
  Claim C7 says that no hull has two vertices with equal coordinates. Two coincident
  points are returned as they are, and three coincident points give a hull of two
  coincident vertices.
\<close>

theorem convex_hull_keeps_duplicates:
  "fst (convex_hull [pt 0 0 1, pt 0 0 2]) = [pt 0 0 1, pt 0 0 2] \<and>
   \<not> distinct (map coords (fst (convex_hull [pt 0 0 1, pt 0 0 2]))) \<and>
   fst (convex_hull [pt 3 5 1, pt 3 5 2, pt 3 5 3]) = [pt 3 5 1, pt 3 5 3] \<and>
   \<not> distinct (map coords (fst (convex_hull [pt 3 5 1, pt 3 5 2, pt 3 5 3])))"
  by code_simp

section \<open>Order of the reported ids\<close>




section \<open>The containment fallback\<close>













section \<open>Orientation of points in lexicographic order\<close>





definition lex_le :: "Point \<Rightarrow> Point \<Rightarrow> bool" where
  "lex_le a b \<longleftrightarrow> \<not> cmp_xy b a"






lemma coords_eq_iff: "coords a = coords b \<longleftrightarrow> px a = px b \<and> py a = py b"
  by (simp add: coords_def)

lemma cross_coords_cong:
  "coords a = coords a' \<Longrightarrow> coords b = coords b' \<Longrightarrow> coords c = coords c' \<Longrightarrow>
     cross_product a b c = cross_product a' b' c'"
  by (simp add: cross_product_expand coords_def)


lemma cross_swap: "cross_product a c b = - cross_product a b c"
  by (simp add: cross_product_expand algebra_simps)


lemma cross_rotate: "cross_product b c a = cross_product a b c"
  by (simp add: cross_product_expand algebra_simps)




section \<open>The hull stack as a list\<close>








section \<open>Invariants of the monotone chain\<close>





definition ord :: "bool \<Rightarrow> Point \<Rightarrow> Point \<Rightarrow> bool" where
  "ord up a b = (if up then lex_le a b else lex_le b a)"





lemma ord_neg: "ord up a b \<longleftrightarrow> ord (\<not> up) b a"
  by (simp add: ord_def)




fun edges_left :: "Point list \<Rightarrow> Point \<Rightarrow> bool" where
  "edges_left (b # a # s) q \<longleftrightarrow> 0 \<le> cross_product a b q \<and> edges_left (a # s) q"
| "edges_left s q \<longleftrightarrow> True"










lemma edges_left_self_top: "edges_left (p # s) q \<Longrightarrow> edges_left s q"
  by (cases s) simp_all



















section \<open>Every input point is left of every hull edge\<close>








section \<open>Hull containment\<close>









section \<open>Strict convexity of the hull\<close>















end
